theory Spec2Isabelle
  imports Main "HOL-Library.Char_ord" "HOL-Library.List_Lexorder" "HOL-Library.Sublist"
begin

section \<open>Strings\<close>

text \<open>
  A Go string is a sequence of bytes, here a \<open>string\<close> (a list of 8-bit \<open>char\<close>s).
  With \<open>Char_ord\<close> and \<open>List_Lexorder\<close> the order on \<open>string\<close> is the bytewise
  lexicographic one, which is Go's \<open><\<close> on strings.
\<close>

text \<open>
  \<open>strings.HasPrefix(s, prefix)\<close>:
  \<^verbatim>\<open>len(s) >= len(prefix) && s[0:len(prefix)] == prefix\<close>.
\<close>

definition HasPrefix :: "string \<Rightarrow> string \<Rightarrow> bool" where
  "HasPrefix s pre = (length s \<ge> length pre \<and> take (length pre) s = pre)"

text \<open>
  \<open>strings.ToLower\<close> on one byte: \<^verbatim>\<open>if 'A' <= c && c <= 'Z' { c += 'a' - 'A' }\<close>.
  Bytes from 128 on are kept. Go lower-cases a non-ASCII rune to an ASCII letter only for
  U+0130 (to i) and U+212A (to k); the strings a lower-cased value is compared with
  below, \<open>allow\<close> and \<open>deny\<close>, have neither letter, so those comparisons have the same
  outcome.
\<close>

definition lowerByte :: "char \<Rightarrow> char" where
  "lowerByte c =
     (let n = (of_char c :: nat)
      in if 65 \<le> n \<and> n \<le> 90 then char_of (n + 32) else c)"

definition ToLower :: "string \<Rightarrow> string" where
  "ToLower s = map lowerByte s"

section \<open>Access control: data\<close>

text \<open>The constants of the package.\<close>

definition AllowAccess :: string where "AllowAccess = ''allow''"
definition DenyAccess :: string where "DenyAccess = ''deny''"
definition AccessControlActionAllow :: string where "AccessControlActionAllow = ''allow''"
definition AccessControlActionDeny :: string where "AccessControlActionDeny = ''deny''"

record SpiffeID =
  trustDomain :: string
  namespace :: string
  appID :: string

record AppOperation =
  Operation :: string
  HTTPVerb :: "string list"
  Action :: string

record AppPolicySpec =
  AppName :: string
  DefaultAction :: string
  TrustDomain :: string
  AppOperationActions :: "AppOperation list"

record AccessControlList =
  DefaultAction :: string
  PolicySpec :: "string \<rightharpoonup> AppPolicySpec"

text \<open>
  Modelled from the spec: the verb enumeration \<open>common.HTTPExtension_Verb\<close> is declared in
  \<open>pkg/proto/common/v1\<close>, which is not among the sources read here. The spec has
  \<open>verb: HTTPVerb|NONE\<close> and rule verbs written as \<open>"GET"\<close>, \<open>"POST"\<close>; \<open>String\<close> gives the
  name of the value.
\<close>

datatype HTTPExtension_Verb =
  HTTPExtension_NONE | HTTPExtension_GET | HTTPExtension_HEAD | HTTPExtension_POST
| HTTPExtension_PUT | HTTPExtension_DELETE | HTTPExtension_CONNECT
| HTTPExtension_OPTIONS | HTTPExtension_TRACE

fun String :: "HTTPExtension_Verb \<Rightarrow> string" where
  "String HTTPExtension_NONE = ''NONE''"
| "String HTTPExtension_GET = ''GET''"
| "String HTTPExtension_HEAD = ''HEAD''"
| "String HTTPExtension_POST = ''POST''"
| "String HTTPExtension_PUT = ''PUT''"
| "String HTTPExtension_DELETE = ''DELETE''"
| "String HTTPExtension_CONNECT = ''CONNECT''"
| "String HTTPExtension_OPTIONS = ''OPTIONS''"
| "String HTTPExtension_TRACE = ''TRACE''"

text \<open>What a call can end in other than its result.\<close>

datatype error =
  NilPointerDereference
| IndexOutOfRange
| SpiffeIDNotRetrieved
| StoreNameRepeated string
| DefaultAccessInvalid string

text \<open>Reading a field through a pointer: a nil pointer panics.\<close>

definition deref :: "'a option \<Rightarrow> error + 'a" where
  "deref p = (case p of None \<Rightarrow> Inl NilPointerDereference | Some v \<Rightarrow> Inr v)"

section \<open>Access control: the decision\<close>

definition isActionAllowed :: "string \<Rightarrow> bool" where
  "isActionAllowed action =
     (if ToLower action = AccessControlActionAllow then True else False)"

text \<open>
  The inner loop over \<open>policyOperation.HTTPVerb\<close>: the first verb equal to the request's
  verb or to \<open>*\<close> sets the action and breaks.
\<close>

fun verbLoop :: "HTTPExtension_Verb \<Rightarrow> AppOperation \<Rightarrow> string list \<Rightarrow> string \<Rightarrow> string" where
  "verbLoop httpVerb policyOperation [] action = action"
| "verbLoop httpVerb policyOperation (policyVerb # rest) action =
     (if policyVerb = String httpVerb \<or> policyVerb = ''*''
      then Action policyOperation
      else verbLoop httpVerb policyOperation rest action)"

text \<open>
  The outer loop over \<open>policy.AppOperationActions\<close>. It has no break: every rule is
  visited, and each one that passes the tests overwrites \<open>action\<close>.
\<close>

fun operationLoop :: "string \<Rightarrow> HTTPExtension_Verb \<Rightarrow> AppOperation list \<Rightarrow> string \<Rightarrow> string" where
  "operationLoop inputOperation httpVerb [] action = action"
| "operationLoop inputOperation httpVerb (policyOperation # rest) action =
     operationLoop inputOperation httpVerb rest
       (if HasPrefix (Operation policyOperation) inputOperation
        then (if httpVerb \<noteq> HTTPExtension_NONE
              then verbLoop httpVerb policyOperation (HTTPVerb policyOperation) action
              else Action policyOperation)
        else action)"

text \<open>
  \<open>IsOperationAllowedByAccessControlPolicy\<close>. The logging calls are left out, except for
  what they read: the dump of all policy specs ranges over \<open>accessControlList.PolicySpec\<close>
  and the next statement reads \<open>accessControlList.DefaultAction\<close>, both through the
  pointer and both before the pointer is compared with nil.
\<close>

definition IsOperationAllowedByAccessControlPolicy ::
  "SpiffeID option \<Rightarrow> string \<Rightarrow> string \<Rightarrow> HTTPExtension_Verb \<Rightarrow> AccessControlList option
    \<Rightarrow> error + bool" where
  "IsOperationAllowedByAccessControlPolicy ident srcAppID operation httpVerb accessControlList =
     (case deref accessControlList of
        Inl e \<Rightarrow> Inl e
      | Inr acl \<Rightarrow>
          (let action = AccessControlList.DefaultAction acl
           in if accessControlList = None then Inr True
              else (case PolicySpec acl srcAppID of
                      None \<Rightarrow> Inr (isActionAllowed action)
                    | Some policy \<Rightarrow>
                        (let action = AppPolicySpec.DefaultAction policy
                         in (case ident of
                               None \<Rightarrow> Inr (isActionAllowed action)
                             | Some i \<Rightarrow>
                                 if TrustDomain policy \<noteq> ''*''
                                    \<and> TrustDomain policy \<noteq> trustDomain i
                                 then Inr False
                                 else Inr (isActionAllowed
                                        (operationLoop (''/'' @ operation) httpVerb
                                           (AppOperationActions policy) action)))))))"

section \<open>Secrets: data and lookup\<close>

record SecretsScope =
  DefaultAccess :: string
  StoreName :: string
  AllowedSecrets :: "string list"
  DeniedSecrets :: "string list"

record SecretsSpec =
  Scopes :: "SecretsScope list"

text \<open>Of \<open>ConfigurationSpec\<close> only the secrets part is read by the functions below.\<close>

record ConfigurationSpec =
  Secrets :: SecretsSpec

record Configuration =
  Spec :: ConfigurationSpec

text \<open>
  \<open>strings.EqualFold\<close>, of the standard library, on bytes. A pair of ASCII characters
  is compared by
  \<^verbatim>\<open>if tr == sr { continue }
  if tr < sr { tr, sr = sr, tr }
  if 'A' <= sr && sr <= 'Z' && tr == sr+'a'-'A' { continue }
  return false\<close>
  and at the end both strings have to be used up. Where a byte from 128 on is met, Go
  compares runes by their fold orbits instead. The second argument is always \<open>allow\<close> or
  \<open>deny\<close> here; the only ASCII letters with a non-ASCII rune in their orbit are k and s,
  which these two words do not have, so the answer there is false, as it is here.
\<close>

definition foldEqByte :: "char \<Rightarrow> char \<Rightarrow> bool" where
  "foldEqByte sr tr =
     (if tr = sr then True
      else (let (sr, tr) = (if tr < sr then (tr, sr) else (sr, tr));
                n = (of_char sr :: nat)
            in 65 \<le> n \<and> n \<le> 90 \<and> tr = char_of (n + 32)))"

fun EqualFold :: "string \<Rightarrow> string \<Rightarrow> bool" where
  "EqualFold (sr # s) (tr # t) = (if foldEqByte sr tr then EqualFold s t else False)"
| "EqualFold [] [] = True"
| "EqualFold _ _ = False"

text \<open>
  \<open>sort.Search(n, f)\<close>, the binary search of the standard library:
  \<^verbatim>\<open>i, j := 0, n
  for i < j {
      h := int(uint(i+j) >> 1)
      if !f(h) { i = h + 1 } else { j = h }
  }
  return i\<close>
  The indices are lengths of slices, so \<open>i + j\<close> does not wrap. \<open>f\<close> is only called at
  \<open>h < n\<close>.
\<close>

function search :: "nat \<Rightarrow> nat \<Rightarrow> (nat \<Rightarrow> bool) \<Rightarrow> nat" where
  "search i j f =
     (if i < j
      then (let h = (i + j) div 2
            in if \<not> f h then search (h + 1) j f else search i h f)
      else i)"
  by pat_completeness auto
termination
  by (relation "measure (\<lambda>(i, j, f). j - i)") auto

declare search.simps [simp del]

definition Search :: "nat \<Rightarrow> (nat \<Rightarrow> bool) \<Rightarrow> nat" where
  "Search n f = search 0 n f"

text \<open>\<open>sort.SearchStrings(a, x)\<close> is \<^verbatim>\<open>Search(len(a), func(i int) bool { return a[i] >= x })\<close>.\<close>

definition SearchStrings :: "string list \<Rightarrow> string \<Rightarrow> nat" where
  "SearchStrings a x = Search (length a) (\<lambda>i. a ! i \<ge> x)"

definition containsKey :: "string list \<Rightarrow> string \<Rightarrow> bool" where
  "containsKey s key =
     (let index = SearchStrings s key
      in index < length s \<and> s ! index = key)"

definition IsSecretAllowed :: "SecretsScope \<Rightarrow> string \<Rightarrow> bool" where
  "IsSecretAllowed c key =
     (let access = AllowAccess;
          access = (if EqualFold (DefaultAccess c) DenyAccess then DenyAccess else access)
      in if length (AllowedSecrets c) \<noteq> 0 then containsKey (AllowedSecrets c) key
         else (let deny = containsKey (DeniedSecrets c) key
               in if deny then \<not> deny
                  else access = AllowAccess))"

section \<open>Secrets: validation and sorting\<close>

text \<open>
  The loop of \<open>sortAndValidateSecretsConfiguration\<close>, with the set of store names seen so
  far. \<open>sort.Strings\<close> sorts the backing array that the scope in \<open>conf\<close> shares with the
  loop variable, so the sorted lists are the configuration's; equal strings cannot be told
  apart, so the result is the one sorted arrangement, \<open>sort\<close>. The function returns the
  error, if any, and the scopes as the loop leaves them: on an error the scopes before the
  offending one are already sorted and the others are untouched.
\<close>

fun scopesLoop :: "string set \<Rightarrow> SecretsScope list \<Rightarrow> error option \<times> SecretsScope list" where
  "scopesLoop seen [] = (None, [])"
| "scopesLoop seen (scope # rest) =
     (if StoreName scope \<in> seen
      then (Some (StoreNameRepeated (StoreName scope)), scope # rest)
      else if DefaultAccess scope \<noteq> ''''
              \<and> \<not> EqualFold (DefaultAccess scope) AllowAccess
              \<and> \<not> EqualFold (DefaultAccess scope) DenyAccess
      then (Some (DefaultAccessInvalid (DefaultAccess scope)), scope # rest)
      else (case scopesLoop (insert (StoreName scope) seen) rest of
              (err, rest') \<Rightarrow>
                (err, scope\<lparr>AllowedSecrets := sort (AllowedSecrets scope),
                            DeniedSecrets := sort (DeniedSecrets scope)\<rparr> # rest')))"

definition sortAndValidateSecretsConfiguration ::
  "Configuration \<Rightarrow> error option \<times> Configuration" where
  "sortAndValidateSecretsConfiguration conf =
     (let scopes = Scopes (Secrets (Spec conf))
      in (case scopesLoop {} scopes of
            (err, scopes') \<Rightarrow>
              (err, conf\<lparr>Spec := (Spec conf)\<lparr>Secrets :=
                            (Secrets (Spec conf))\<lparr>Scopes := scopes'\<rparr>\<rparr>\<rparr>)))"

section \<open>Caller identity\<close>

text \<open>
  \<open>strings.Split(s, sep)\<close> for a separator of one byte: \<open>s\<close> is cut at every occurrence,
  so \<open>n\<close> occurrences give \<open>n + 1\<close> parts, empty ones included.
\<close>

fun splitFrom :: "string \<Rightarrow> string \<Rightarrow> char \<Rightarrow> string list" where
  "splitFrom part [] sep = [part]"
| "splitFrom part (c # s) sep =
     (if c = sep then part # splitFrom [] s sep else splitFrom (part @ [c]) s sep)"

definition Split :: "string \<Rightarrow> char \<Rightarrow> string list" where
  "Split s sep = splitFrom [] s sep"

text \<open>Indexing a slice panics out of range.\<close>

definition index :: "'a list \<Rightarrow> nat \<Rightarrow> error + 'a" where
  "index xs i = (if i < length xs then Inr (xs ! i) else Inl IndexOutOfRange)"

text \<open>
  The gRPC peer of a context and its TLS state, as far as the function and the lines
  commented out in it name them: \<open>peer.AuthInfo\<close>, \<open>tlsInfo.State.HandshakeComplete\<close>,
  \<open>tlsInfo.State.VerifiedChains\<close> and, per certificate, the values of its
  \<open>ExtraExtensions\<close>.
\<close>

record Certificate =
  ExtraExtensions :: "string list"

record TLSInfo =
  HandshakeComplete :: bool
  VerifiedChains :: "Certificate list list"

record Peer =
  Addr :: string
  AuthInfo :: "TLSInfo option"

record Context =
  peerKey :: "Peer option"

definition FromContext :: "Context \<Rightarrow> Peer option" where
  "FromContext ctx = peerKey ctx"

text \<open>
  \<open>TryGetAndParseSpiffeID\<close>. The peer is printed and not read again: the checks of its
  \<open>AuthInfo\<close> and the read of the certificate are commented out, and \<open>spiffeID\<close> is the
  literal left in their place.
\<close>

definition TryGetAndParseSpiffeID :: "Context \<Rightarrow> error + SpiffeID" where
  "TryGetAndParseSpiffeID ctx =
     (case FromContext ctx of
        None \<Rightarrow> Inl SpiffeIDNotRetrieved
      | Some p \<Rightarrow>
          (let spiffeID = ''spiffe://a/ns/b/pythonapp'';
               parts = Split spiffeID (CHR ''/'')
           in (case index parts 2 of
                 Inl e \<Rightarrow> Inl e
               | Inr p2 \<Rightarrow>
                   (case index parts 4 of
                      Inl e \<Rightarrow> Inl e
                    | Inr p4 \<Rightarrow>
                        (case index parts 5 of
                           Inl e \<Rightarrow> Inl e
                         | Inr p5 \<Rightarrow>
                             Inr \<lparr>trustDomain = p2, namespace = p4, appID = p5\<rparr>)))))"

section \<open>Concrete inputs\<close>

text \<open>Policies, scopes and contexts at which the theorems below are instantiated.\<close>

definition caller :: SpiffeID where
  "caller = \<lparr>trustDomain = ''public'', namespace = ''default'', appID = ''app1''\<rparr>"

definition prefixPolicy :: AppPolicySpec where
  "prefixPolicy =
     \<lparr>AppName = ''app1'', DefaultAction = ''deny'', TrustDomain = ''*'',
      AppOperationActions = [\<lparr>Operation = ''/x'', HTTPVerb = [''*''], Action = ''allow''\<rparr>]\<rparr>"

definition longerPolicy :: AppPolicySpec where
  "longerPolicy =
     \<lparr>AppName = ''app1'', DefaultAction = ''deny'', TrustDomain = ''*'',
      AppOperationActions = [\<lparr>Operation = ''/x/y'', HTTPVerb = [''*''], Action = ''allow''\<rparr>]\<rparr>"

definition twoRulesPolicy :: AppPolicySpec where
  "twoRulesPolicy =
     \<lparr>AppName = ''app1'', DefaultAction = ''deny'', TrustDomain = ''public'',
      AppOperationActions =
        [\<lparr>Operation = ''/x'', HTTPVerb = [''GET''], Action = ''allow''\<rparr>,
         \<lparr>Operation = ''/x'', HTTPVerb = [''POST'', ''*''], Action = ''deny''\<rparr>,
         \<lparr>Operation = ''/other'', HTTPVerb = [''*''], Action = ''allow''\<rparr>]\<rparr>"

definition shadowedPolicy :: AppPolicySpec where
  "shadowedPolicy =
     \<lparr>AppName = ''app1'', DefaultAction = ''deny'', TrustDomain = ''*'',
      AppOperationActions =
        [\<lparr>Operation = ''/x/y'', HTTPVerb = [''*''], Action = ''allow''\<rparr>,
         \<lparr>Operation = ''/x'', HTTPVerb = [''*''], Action = ''deny''\<rparr>]\<rparr>"

definition pinnedPolicy :: AppPolicySpec where
  "pinnedPolicy =
     \<lparr>AppName = ''app1'', DefaultAction = ''allow'', TrustDomain = ''td1'',
      AppOperationActions = [\<lparr>Operation = ''/x'', HTTPVerb = [''*''], Action = ''allow''\<rparr>]\<rparr>"

definition aclOf :: "AppPolicySpec \<Rightarrow> AccessControlList" where
  "aclOf policy = \<lparr>DefaultAction = ''deny'', PolicySpec = [AppName policy \<mapsto> policy]\<rparr>"

definition allowListScope :: SecretsScope where
  "allowListScope =
     \<lparr>DefaultAccess = ''deny'', StoreName = ''vault'',
      AllowedSecrets = [''alpha'', ''beta''], DeniedSecrets = [''beta'', ''gamma'']\<rparr>"

definition denyListScope :: SecretsScope where
  "denyListScope =
     \<lparr>DefaultAccess = ''allow'', StoreName = ''vault'',
      AllowedSecrets = [], DeniedSecrets = [''beta'', ''gamma'']\<rparr>"

definition upperDenyScope :: SecretsScope where
  "upperDenyScope =
     \<lparr>DefaultAccess = ''DENY'', StoreName = ''vault'',
      AllowedSecrets = [], DeniedSecrets = []\<rparr>"

definition confOf :: "SecretsScope list \<Rightarrow> Configuration" where
  "confOf scopes = \<lparr>Spec = \<lparr>Secrets = \<lparr>Scopes = scopes\<rparr>\<rparr>\<rparr>"

definition unsortedScope :: SecretsScope where
  "unsortedScope =
     \<lparr>DefaultAccess = ''Allow'', StoreName = ''vault'',
      AllowedSecrets = [''b'', ''a''], DeniedSecrets = [''z'', ''y'', ''x'']\<rparr>"

definition localScope :: SecretsScope where
  "localScope =
     \<lparr>DefaultAccess = '''', StoreName = ''local'',
      AllowedSecrets = [], DeniedSecrets = [''k'']\<rparr>"

definition plainContext :: Context where
  "plainContext = \<lparr>peerKey = Some \<lparr>Addr = ''10.0.0.1:50001'', AuthInfo = None\<rparr>\<rparr>"

definition tlsContext :: Context where
  "tlsContext =
     \<lparr>peerKey = Some \<lparr>Addr = ''10.0.0.2:50001'',
        AuthInfo = Some \<lparr>HandshakeComplete = True,
          VerifiedChains = [[\<lparr>ExtraExtensions = [''spiffe://other/ns/prod/billing'']\<rparr>]]\<rparr>\<rparr>\<rparr>"

section \<open>The access-control decision: properties\<close>

text \<open>
  Claim C1 has the decision return true for an absent access-control list. The function
  reads \<open>accessControlList.PolicySpec\<close> and \<open>accessControlList.DefaultAction\<close> before it
  compares the pointer with nil, so with a nil list every call panics and the
  \<open>return true\<close> under the comparison is never reached.
\<close>

theorem IsOperationAllowed_nil_acl_panics:
  "IsOperationAllowedByAccessControlPolicy ident srcAppID operation httpVerb None
   = Inl NilPointerDereference"
  by (simp add: IsOperationAllowedByAccessControlPolicy_def deref_def)

text \<open>
  \<open>HasPrefix s pre\<close> says that \<open>s\<close> begins with \<open>pre\<close>. The loop calls it with the rule's
  \<open>Operation\<close> as \<open>s\<close> and the request path as \<open>pre\<close>.
\<close>

lemma HasPrefix_iff_prefix: "HasPrefix s pre \<longleftrightarrow> prefix pre s"
proof
  assume "HasPrefix s pre"
  then have "take (length pre) s = pre" by (simp add: HasPrefix_def)
  then show "prefix pre s" by (metis take_is_prefix)
next
  assume "prefix pre s"
  then obtain r where "s = pre @ r" by (auto simp: prefix_def)
  then show "HasPrefix s pre" by (simp add: HasPrefix_def)
qed

text \<open>The decision once the list is there and has a policy for the caller.\<close>

lemma IsOperationAllowed_found:
  assumes "PolicySpec acl srcAppID = Some policy"
  shows "IsOperationAllowedByAccessControlPolicy ident srcAppID operation httpVerb (Some acl) =
     (case ident of
        None \<Rightarrow> Inr (isActionAllowed (AppPolicySpec.DefaultAction policy))
      | Some i \<Rightarrow>
          if TrustDomain policy \<noteq> ''*'' \<and> TrustDomain policy \<noteq> trustDomain i then Inr False
          else Inr (isActionAllowed (operationLoop (''/'' @ operation) httpVerb
                      (AppOperationActions policy) (AppPolicySpec.DefaultAction policy))))"
  using assms by (simp add: IsOperationAllowedByAccessControlPolicy_def deref_def Let_def)

lemma deny_not_allowed: "\<not> isActionAllowed ''deny''"
  by code_simp

lemma allow_allowed: "isActionAllowed ''allow''"
  by code_simp

text \<open>
  Claim C2 has a rule apply when its path is a prefix of \<open>"/" + operation\<close>. The code
  tests the converse, \<open>strings.HasPrefix(policyOperation.Operation, inputOperation)\<close>: the
  request path has to be a prefix of the rule's. With the one rule \<open>/x \<rightarrow> allow\<close> and default
  \<open>deny\<close>, the request \<open>x/y\<close> is denied although \<open>/x\<close> is a prefix of \<open>/x/y\<close>; with the one
  rule \<open>/x/y \<rightarrow> allow\<close>, the request \<open>x\<close> is allowed although \<open>/x/y\<close> is no prefix of \<open>/x\<close>.
\<close>

theorem IsOperationAllowed_prefix_test_reversed:
  "IsOperationAllowedByAccessControlPolicy (Some caller) ''app1'' ''x/y'' HTTPExtension_GET
     (Some (aclOf prefixPolicy)) = Inr False
   \<and> IsOperationAllowedByAccessControlPolicy (Some caller) ''app1'' ''x'' HTTPExtension_GET
     (Some (aclOf longerPolicy)) = Inr True"
  by code_simp

text \<open>
  Claim C3: with an identity and a policy for the caller, a policy trust domain that is
  neither \<open>*\<close> nor the identity's makes the decision false, whatever the operation, the
  verb, the policy's rules and the default actions are.
\<close>

theorem trust_domain_mismatch_denies:
  assumes "PolicySpec acl srcAppID = Some policy"
    and "TrustDomain policy \<noteq> ''*''"
    and "TrustDomain policy \<noteq> trustDomain i"
  shows "IsOperationAllowedByAccessControlPolicy (Some i) srcAppID operation httpVerb (Some acl)
         = Inr False"
  using assms(2,3) by (simp add: IsOperationAllowed_found [OF assms(1)])

text \<open>
  At \<open>pinnedPolicy\<close> (trust domain \<open>td1\<close>, default \<open>allow\<close>, a rule allowing \<open>/x\<close>) and a
  caller of trust domain \<open>public\<close>, the request \<open>x\<close> is denied.
\<close>

theorem trust_domain_mismatch_denies_witness:
  "PolicySpec (aclOf pinnedPolicy) ''app1'' = Some pinnedPolicy
   \<and> TrustDomain pinnedPolicy \<noteq> ''*''
   \<and> TrustDomain pinnedPolicy \<noteq> trustDomain caller
   \<and> IsOperationAllowedByAccessControlPolicy (Some caller) ''app1'' ''x'' HTTPExtension_GET
        (Some (aclOf pinnedPolicy)) = Inr False"
proof -
  have found: "PolicySpec (aclOf pinnedPolicy) ''app1'' = Some pinnedPolicy"
    by (simp add: aclOf_def pinnedPolicy_def)
  have star: "TrustDomain pinnedPolicy \<noteq> ''*''"
    by (simp add: pinnedPolicy_def)
  have other: "TrustDomain pinnedPolicy \<noteq> trustDomain caller"
    by (simp add: pinnedPolicy_def caller_def)
  from trust_domain_mismatch_denies [OF found star other, of "''x''" HTTPExtension_GET]
    found star other
  show ?thesis by simp
qed

text \<open>
  Claim C4 has the last rule that matches the request give the action, a rule matching
  when its path is a prefix of \<open>"/" + operation\<close> and, for a verb other than \<open>NONE\<close>, one
  of its verbs is the request's or \<open>*\<close>. At \<open>shadowedPolicy\<close> (rules \<open>/x/y \<rightarrow> allow\<close>, then
  \<open>/x \<rightarrow> deny\<close>, both for every verb) and the request \<open>GET x/y\<close>, both rule paths are
  prefixes of \<open>/x/y\<close> and the last rule says \<open>deny\<close>, yet the request is allowed: the path
  test, with the arguments of \<open>strings.HasPrefix\<close> the other way round, passes the first
  rule only. The scan itself does not stop at a match: at \<open>twoRulesPolicy\<close>, whose first two
  rules have the request's own path \<open>/x\<close>, the later \<open>deny\<close> overwrites the earlier \<open>allow\<close>.
\<close>

theorem IsOperationAllowed_last_prefix_rule_not_applied:
  "prefix (Operation (AppOperationActions shadowedPolicy ! 0)) (''/'' @ ''x/y'')
   \<and> prefix (Operation (AppOperationActions shadowedPolicy ! 1)) (''/'' @ ''x/y'')
   \<and> ''*'' \<in> set (HTTPVerb (AppOperationActions shadowedPolicy ! 0))
   \<and> ''*'' \<in> set (HTTPVerb (AppOperationActions shadowedPolicy ! 1))
   \<and> length (AppOperationActions shadowedPolicy) = 2
   \<and> Action (AppOperationActions shadowedPolicy ! 1) = ''deny''
   \<and> \<not> isActionAllowed ''deny''
   \<and> IsOperationAllowedByAccessControlPolicy (Some caller) ''app1'' ''x/y'' HTTPExtension_GET
        (Some (aclOf shadowedPolicy)) = Inr True
   \<and> IsOperationAllowedByAccessControlPolicy (Some caller) ''app1'' ''x'' HTTPExtension_GET
        (Some (aclOf twoRulesPolicy)) = Inr False"
proof -
  have paths: "prefix (Operation (AppOperationActions shadowedPolicy ! 0)) (''/'' @ ''x/y'')
      \<and> prefix (Operation (AppOperationActions shadowedPolicy ! 1)) (''/'' @ ''x/y'')"
    by (simp add: shadowedPolicy_def)
  have rules: "''*'' \<in> set (HTTPVerb (AppOperationActions shadowedPolicy ! 0))
      \<and> ''*'' \<in> set (HTTPVerb (AppOperationActions shadowedPolicy ! 1))
      \<and> length (AppOperationActions shadowedPolicy) = 2
      \<and> Action (AppOperationActions shadowedPolicy ! 1) = ''deny''"
    by (simp add: shadowedPolicy_def)
  have shadowed: "IsOperationAllowedByAccessControlPolicy (Some caller) ''app1'' ''x/y''
        HTTPExtension_GET (Some (aclOf shadowedPolicy)) = Inr True"
    by code_simp
  have same: "IsOperationAllowedByAccessControlPolicy (Some caller) ''app1'' ''x''
        HTTPExtension_GET (Some (aclOf twoRulesPolicy)) = Inr False"
    by code_simp
  from paths rules deny_not_allowed shadowed same show ?thesis
    by (simp only: simp_thms)
qed

text \<open>Lower-casing, byte by byte.\<close>

lemma of_char_lowerByte:
  "(of_char (lowerByte c) :: nat) =
     (if 65 \<le> (of_char c :: nat) \<and> (of_char c :: nat) \<le> 90 then of_char c + 32 else of_char c)"
  by (simp add: lowerByte_def Let_def)

lemma lowerByte_eq:
  assumes "97 \<le> (of_char d :: nat)" "(of_char d :: nat) \<le> 122"
  shows "lowerByte c = d \<longleftrightarrow> c = d \<or> (of_char c :: nat) + 32 = of_char d"
proof -
  have "lowerByte c = d \<longleftrightarrow> (of_char (lowerByte c) :: nat) = of_char d"
    by (simp only: of_char_eq_iff)
  also have "\<dots> \<longleftrightarrow> (of_char c :: nat) = of_char d \<or> (of_char c :: nat) + 32 = of_char d"
    using assms by (auto simp: of_char_lowerByte)
  finally show ?thesis by simp
qed

lemma ToLower_eq_lower:
  assumes "\<forall>d \<in> set t. 97 \<le> (of_char d :: nat) \<and> (of_char d :: nat) \<le> 122"
  shows "ToLower s = t \<longleftrightarrow>
     list_all2 (\<lambda>c d. c = d \<or> (of_char c :: nat) + 32 = of_char d) s t"
  using assms
proof (induction s arbitrary: t)
  case Nil
  show ?case by (auto simp: ToLower_def)
next
  case (Cons c s)
  show ?case
  proof (cases t)
    case Nil
    then show ?thesis by (simp add: ToLower_def)
  next
    case (Cons d t')
    have "lowerByte c = d \<longleftrightarrow> c = d \<or> (of_char c :: nat) + 32 = of_char d"
      using Cons.prems Cons by (intro lowerByte_eq) simp_all
    moreover have "ToLower s = t' \<longleftrightarrow>
        list_all2 (\<lambda>c d. c = d \<or> (of_char c :: nat) + 32 = of_char d) s t'"
      using Cons.prems Cons by (intro Cons.IH) simp
    ultimately show ?thesis using Cons by (simp add: ToLower_def)
  qed
qed

text \<open>
  Claim C5: \<open>isActionAllowed\<close> holds exactly of the strings whose lower-cased form is
  \<open>allow\<close>. In bytes: the string has the five bytes of \<open>allow\<close>, each either as it is or
  32 below (its capital); the empty string and every other string give false.
\<close>

theorem isActionAllowed_iff_lower_allow:
  "(isActionAllowed action \<longleftrightarrow> ToLower action = ''allow'')
   \<and> (isActionAllowed action \<longleftrightarrow>
        list_all2 (\<lambda>c d. c = d \<or> (of_char c :: nat) + 32 = of_char d) action ''allow'')
   \<and> \<not> isActionAllowed ''''
   \<and> \<not> isActionAllowed ''allowed''"
proof -
  have "ToLower action = ''allow'' \<longleftrightarrow>
        list_all2 (\<lambda>c d. c = d \<or> (of_char c :: nat) + 32 = of_char d) action ''allow''"
    by (rule ToLower_eq_lower) simp
  moreover have "\<not> isActionAllowed ''''"
    by (simp add: isActionAllowed_def ToLower_def AccessControlActionAllow_def)
  moreover have "\<not> isActionAllowed ''allowed''"
    by (simp add: isActionAllowed_def ToLower_def AccessControlActionAllow_def)
  ultimately show ?thesis
    by (simp add: isActionAllowed_def AccessControlActionAllow_def)
qed

text \<open>
  Claim C6: with a policy for the caller and no identity, the decision is the policy's
  default action, read by \<open>isActionAllowed\<close>; the trust domain and the rules are not
  looked at.
\<close>

theorem absent_identity_gets_policy_default:
  assumes "PolicySpec acl srcAppID = Some policy"
  shows "IsOperationAllowedByAccessControlPolicy None srcAppID operation httpVerb (Some acl)
         = Inr (isActionAllowed (AppPolicySpec.DefaultAction policy))"
  by (simp add: IsOperationAllowed_found [OF assms])

text \<open>
  At \<open>pinnedPolicy\<close> (default \<open>allow\<close>, pinned to trust domain \<open>td1\<close>) in a list whose own
  default is \<open>deny\<close>, a caller without identity is allowed.
\<close>

theorem absent_identity_gets_policy_default_witness:
  "PolicySpec (aclOf pinnedPolicy) ''app1'' = Some pinnedPolicy
   \<and> AppPolicySpec.DefaultAction pinnedPolicy = ''allow''
   \<and> IsOperationAllowedByAccessControlPolicy None ''app1'' ''x'' HTTPExtension_GET
        (Some (aclOf pinnedPolicy)) = Inr True"
proof -
  have found: "PolicySpec (aclOf pinnedPolicy) ''app1'' = Some pinnedPolicy"
    by (simp add: aclOf_def pinnedPolicy_def)
  have dflt: "AppPolicySpec.DefaultAction pinnedPolicy = ''allow''"
    by (simp add: pinnedPolicy_def)
  from absent_identity_gets_policy_default [OF found, of "''x''" HTTPExtension_GET]
    found dflt allow_allowed
  show ?thesis by simp
qed

section \<open>Secrets: properties\<close>

text \<open>Unfolding the binary search one step at a time.\<close>

lemma search_done: "\<not> i < j \<Longrightarrow> search i j f = i"
  by (subst search.simps) simp

lemma search_right:
  "i < j \<Longrightarrow> \<not> f ((i + j) div 2) \<Longrightarrow> search i j f = search ((i + j) div 2 + 1) j f"
  by (subst search.simps) simp

lemma search_left:
  "i < j \<Longrightarrow> f ((i + j) div 2) \<Longrightarrow> search i j f = search i ((i + j) div 2) f"
  by (subst search.simps) simp

text \<open>
  The loop invariant of \<open>sort.Search\<close>: \<open>f\<close> is false below \<open>i\<close> and true from \<open>j\<close> on.
  For a monotone \<open>f\<close> the result splits the range into the false and the true part.
\<close>

lemma search_spec:
  assumes "i \<le> j" "j \<le> n" "\<forall>k<i. \<not> f k" "\<forall>k. j \<le> k \<and> k < n \<longrightarrow> f k"
    and mono: "\<forall>k l. k \<le> l \<and> l < n \<and> f k \<longrightarrow> f l"
  shows "search i j f \<le> n \<and> (\<forall>k < search i j f. \<not> f k)
         \<and> (\<forall>k. search i j f \<le> k \<and> k < n \<longrightarrow> f k)"
  using assms
proof (induction i j f rule: search.induct)
  case (1 i j f)
  show ?case
  proof (cases "i < j")
    case False
    then have "search i j f = i" by (rule search_done)
    moreover have "i = j" using False "1.prems"(1) by simp
    ultimately show ?thesis using "1.prems"(2,3,4) by simp
  next
    case True
    let ?h = "(i + j) div 2"
    have h: "i \<le> ?h" "?h < j" using True by auto
    show ?thesis
    proof (cases "f ?h")
      case fh: True
      have eq: "search i j f = search i ?h f"
        using search_left [of i j f] True fh by simp
      have "search i ?h f \<le> n \<and> (\<forall>k < search i ?h f. \<not> f k)
          \<and> (\<forall>k. search i ?h f \<le> k \<and> k < n \<longrightarrow> f k)"
      proof (rule "1.IH"(2) [OF True refl])
        show "\<not> \<not> f ?h" using fh by simp
        show "i \<le> ?h" by (rule h(1))
        show "?h \<le> n" using h(2) "1.prems"(2) by linarith
        show "\<forall>k<i. \<not> f k" by (rule "1.prems"(3))
        show "\<forall>k. ?h \<le> k \<and> k < n \<longrightarrow> f k"
        proof (intro allI impI)
          fix k assume "?h \<le> k \<and> k < n"
          with fh "1.prems"(5) show "f k" by blast
        qed
        show "\<forall>k l. k \<le> l \<and> l < n \<and> f k \<longrightarrow> f l" by (rule "1.prems"(5))
      qed
      then show ?thesis unfolding eq .
    next
      case nfh: False
      have eq: "search i j f = search (?h + 1) j f"
        using search_right [of i j f] True nfh by simp
      have "search (?h + 1) j f \<le> n \<and> (\<forall>k < search (?h + 1) j f. \<not> f k)
          \<and> (\<forall>k. search (?h + 1) j f \<le> k \<and> k < n \<longrightarrow> f k)"
      proof (rule "1.IH"(1) [OF True refl nfh])
        show "?h + 1 \<le> j" using h(2) by simp
        show "j \<le> n" by (rule "1.prems"(2))
        show "\<forall>k<?h + 1. \<not> f k"
        proof (intro allI impI)
          fix k assume "k < ?h + 1"
          then have "k \<le> ?h" by simp
          moreover have "?h < n" using h(2) "1.prems"(2) by linarith
          ultimately show "\<not> f k" using nfh "1.prems"(5) by blast
        qed
        show "\<forall>k. j \<le> k \<and> k < n \<longrightarrow> f k" by (rule "1.prems"(4))
        show "\<forall>k l. k \<le> l \<and> l < n \<and> f k \<longrightarrow> f l" by (rule "1.prems"(5))
      qed
      then show ?thesis unfolding eq .
    qed
  qed
qed

lemma search_least:
  fixes key :: string
  assumes "sorted s"
  defines "r \<equiv> search 0 (length s) (\<lambda>i. s ! i \<ge> key)"
  shows "r \<le> length s" and "\<And>k. k < r \<Longrightarrow> \<not> key \<le> s ! k"
    and "\<And>k. r \<le> k \<Longrightarrow> k < length s \<Longrightarrow> key \<le> s ! k"
proof -
  let ?f = "\<lambda>i. s ! i \<ge> key"
  have mono: "\<forall>k l. k \<le> l \<and> l < length s \<and> ?f k \<longrightarrow> ?f l"
  proof (intro allI impI)
    fix k l assume a: "k \<le> l \<and> l < length s \<and> key \<le> s ! k"
    then have "s ! k \<le> s ! l" using assms(1) by (simp add: sorted_nth_mono)
    with a show "key \<le> s ! l" by (meson order_trans)
  qed
  have "search 0 (length s) ?f \<le> length s
      \<and> (\<forall>k < search 0 (length s) ?f. \<not> ?f k)
      \<and> (\<forall>k. search 0 (length s) ?f \<le> k \<and> k < length s \<longrightarrow> ?f k)"
  proof (rule search_spec [of 0 "length s" "length s"])
    show "\<forall>k<0. \<not> ?f k" by simp
    show "\<forall>k. length s \<le> k \<and> k < length s \<longrightarrow> ?f k" by auto
    show "\<forall>k l. k \<le> l \<and> l < length s \<and> ?f k \<longrightarrow> ?f l" by (rule mono)
  qed simp_all
  then show "r \<le> length s" and "\<And>k. k < r \<Longrightarrow> \<not> key \<le> s ! k"
    and "\<And>k. r \<le> k \<Longrightarrow> k < length s \<Longrightarrow> key \<le> s ! k"
    unfolding r_def by blast+
qed

text \<open>On a sorted list the binary search decides membership.\<close>

lemma containsKey_sorted:
  assumes "sorted s"
  shows "containsKey s key \<longleftrightarrow> key \<in> set s"
proof
  assume "containsKey s key"
  then have "\<exists>n < length s. s ! n = key"
    by (auto simp: containsKey_def Let_def)
  then show "key \<in> set s"
    using nth_mem by blast
next
  let ?r = "search 0 (length s) (\<lambda>i. s ! i \<ge> key)"
  assume "key \<in> set s"
  then obtain k where k: "k < length s" "s ! k = key"
    by (auto simp: in_set_conv_nth)
  have "\<not> k < ?r" using search_least(2) [OF assms, of k key] k(2) by auto
  then have rk: "?r \<le> k" by simp
  then have rl: "?r < length s" using k(1) by simp
  have "s ! ?r \<le> s ! k"
    using assms rk k(1) by (rule sorted_nth_mono)
  moreover have "key \<le> s ! ?r"
    using search_least(3) [OF assms, of key ?r] rl by simp
  ultimately have "s ! ?r = key" using k(2) by simp
  with rl show "containsKey s key"
    by (simp add: containsKey_def SearchStrings_def Search_def Let_def)
qed

lemma containsKey_Nil: "\<not> containsKey [] key"
  by (simp add: containsKey_def)

text \<open>
  Claim C7: with a non-empty, sorted allow-list the answer is membership in that list,
  for every key; replacing the deny-list and the default access changes nothing.
\<close>

theorem IsSecretAllowed_allow_list:
  assumes "AllowedSecrets c \<noteq> []" and "sorted (AllowedSecrets c)"
  shows "IsSecretAllowed c key = (key \<in> set (AllowedSecrets c))
       \<and> IsSecretAllowed (c\<lparr>DeniedSecrets := d, DefaultAccess := a\<rparr>) key = IsSecretAllowed c key"
  using assms by (simp add: IsSecretAllowed_def containsKey_sorted)

text \<open>
  At \<open>allowListScope\<close> (allow-list \<open>alpha, beta\<close>; deny-list \<open>beta, gamma\<close>; default
  \<open>deny\<close>): \<open>beta\<close> is allowed although it is denied by name and by default, \<open>gamma\<close> is not.
\<close>

theorem IsSecretAllowed_allow_list_witness:
  "AllowedSecrets allowListScope \<noteq> [] \<and> sorted (AllowedSecrets allowListScope)
   \<and> IsSecretAllowed allowListScope ''beta'' \<and> \<not> IsSecretAllowed allowListScope ''gamma''"
proof -
  have ne: "AllowedSecrets allowListScope \<noteq> []"
    by (simp add: allowListScope_def)
  have srt: "sorted (AllowedSecrets allowListScope)"
    by (simp add: allowListScope_def)
  from IsSecretAllowed_allow_list [OF ne srt, of "''beta''"]
    IsSecretAllowed_allow_list [OF ne srt, of "''gamma''"] ne srt
  show ?thesis by (simp add: allowListScope_def)
qed

text \<open>\<open>EqualFold\<close> compares the lower-cased strings.\<close>

lemma char_eq_char_of:
  assumes "n \<le> 90"
  shows "c = char_of (n + 32) \<longleftrightarrow> (of_char c :: nat) = n + 32"
proof -
  have "c = char_of (n + 32) \<longleftrightarrow> (of_char c :: nat) = of_char (char_of (n + 32))"
    by (simp only: of_char_eq_iff)
  also have "(of_char (char_of (n + 32)) :: nat) = n + 32"
    using assms by simp
  finally show ?thesis .
qed

lemma foldEqByte_lower: "foldEqByte a b \<longleftrightarrow> lowerByte a = lowerByte b"
proof -
  have "lowerByte a = lowerByte b \<longleftrightarrow> (of_char (lowerByte a) :: nat) = of_char (lowerByte b)"
    by simp
  also have "\<dots> \<longleftrightarrow> foldEqByte a b"
  proof (cases "a = b")
    case True
    then show ?thesis by (simp add: foldEqByte_def)
  next
    case False
    then have ne: "(of_char a :: nat) \<noteq> of_char b" by simp
    show ?thesis
    proof (cases "a < b")
      case True
      then have lt: "(of_char a :: nat) < of_char b" by (simp only: less_char_def)
      have "foldEqByte a b \<longleftrightarrow>
              65 \<le> (of_char a :: nat) \<and> (of_char a :: nat) \<le> 90
              \<and> (of_char b :: nat) = of_char a + 32"
        using False True by (auto simp: foldEqByte_def Let_def char_eq_char_of)
      then show ?thesis using lt by (auto simp: of_char_lowerByte)
    next
      case nlt: False
      have "\<not> (of_char a :: nat) < of_char b" using nlt by (simp add: less_char_def)
      then have gt: "(of_char b :: nat) < of_char a" using ne by linarith
      then have "b < a" by (simp only: less_char_def)
      then have "foldEqByte a b \<longleftrightarrow>
              65 \<le> (of_char b :: nat) \<and> (of_char b :: nat) \<le> 90
              \<and> (of_char a :: nat) = of_char b + 32"
        using False by (auto simp: foldEqByte_def Let_def char_eq_char_of)
      then show ?thesis using gt by (auto simp: of_char_lowerByte)
    qed
  qed
  finally show ?thesis by simp
qed

lemma EqualFold_ToLower: "EqualFold s t \<longleftrightarrow> ToLower s = ToLower t"
  by (induction s t rule: EqualFold.induct) (auto simp: ToLower_def foldEqByte_lower)

lemma ToLower_allow: "ToLower ''allow'' = ''allow''"
  by code_simp

lemma ToLower_deny: "ToLower ''deny'' = ''deny''"
  by code_simp

lemma EqualFold_deny: "EqualFold s ''deny'' \<longleftrightarrow> ToLower s = ''deny''"
  by (simp only: EqualFold_ToLower ToLower_deny)

lemma EqualFold_allow: "EqualFold s ''allow'' \<longleftrightarrow> ToLower s = ''allow''"
  by (simp only: EqualFold_ToLower ToLower_allow)

lemma ToLower_upper_deny: "ToLower ''DENY'' = ''deny''"
  by code_simp

lemma ToLower_Allow: "ToLower ''Allow'' = ''allow''"
  by code_simp

text \<open>
  Claim C8, second part, as stated: with both lists empty the answer would be
  \<open>defaultAccess \<noteq> "deny"\<close>. At \<open>upperDenyScope\<close> the default access is \<open>DENY\<close>, which is
  not the string \<open>deny\<close>, and the answer is false: the default is compared with
  \<open>strings.EqualFold\<close>.
\<close>

theorem IsSecretAllowed_default_literal_counterexample:
  "AllowedSecrets upperDenyScope = [] \<and> DeniedSecrets upperDenyScope = []
   \<and> sorted (DeniedSecrets upperDenyScope)
   \<and> IsSecretAllowed upperDenyScope ''k'' \<noteq> (DefaultAccess upperDenyScope \<noteq> ''deny'')"
proof -
  have "EqualFold ''DENY'' ''deny''"
    by (simp only: EqualFold_deny ToLower_upper_deny)
  then show ?thesis
    by (simp add: upperDenyScope_def IsSecretAllowed_def containsKey_Nil
          AllowAccess_def DenyAccess_def)
qed

text \<open>
  Claim C8, amended: with an empty allow-list and a sorted deny-list, a key of the
  deny-list is refused; with both lists empty the answer is that the default access,
  lower-cased, is not \<open>deny\<close>.
\<close>

theorem IsSecretAllowed_deny_list_and_default:
  assumes "AllowedSecrets c = []" and "sorted (DeniedSecrets c)"
  shows "(key \<in> set (DeniedSecrets c) \<longrightarrow> \<not> IsSecretAllowed c key)
       \<and> (DeniedSecrets c = [] \<longrightarrow>
            IsSecretAllowed c key = (ToLower (DefaultAccess c) \<noteq> ''deny''))"
  using assms
  by (auto simp: IsSecretAllowed_def containsKey_sorted containsKey_Nil EqualFold_deny
        AllowAccess_def DenyAccess_def Let_def)

text \<open>
  At \<open>denyListScope\<close> (default \<open>allow\<close>) the denied key \<open>beta\<close> is refused; at
  \<open>upperDenyScope\<close>, with both lists empty and default \<open>DENY\<close>, every key is refused.
\<close>

theorem IsSecretAllowed_deny_list_and_default_witness:
  "AllowedSecrets denyListScope = [] \<and> sorted (DeniedSecrets denyListScope)
   \<and> ''beta'' \<in> set (DeniedSecrets denyListScope)
   \<and> \<not> IsSecretAllowed denyListScope ''beta''
   \<and> AllowedSecrets upperDenyScope = [] \<and> sorted (DeniedSecrets upperDenyScope)
   \<and> DeniedSecrets upperDenyScope = []
   \<and> \<not> IsSecretAllowed upperDenyScope ''k''"
proof -
  have a1: "AllowedSecrets denyListScope = []" by (simp add: denyListScope_def)
  have s1: "sorted (DeniedSecrets denyListScope)" by (simp add: denyListScope_def)
  have m1: "''beta'' \<in> set (DeniedSecrets denyListScope)" by (simp add: denyListScope_def)
  have a2: "AllowedSecrets upperDenyScope = []" by (simp add: upperDenyScope_def)
  have s2: "sorted (DeniedSecrets upperDenyScope)" by (simp add: upperDenyScope_def)
  have e2: "DeniedSecrets upperDenyScope = []" by (simp add: upperDenyScope_def)
  have d2: "ToLower (DefaultAccess upperDenyScope) = ''deny''"
    by (simp add: upperDenyScope_def ToLower_upper_deny)
  from IsSecretAllowed_deny_list_and_default [OF a1 s1, of "''beta''"]
    IsSecretAllowed_deny_list_and_default [OF a2 s2, of "''k''"]
    a1 s1 m1 a2 s2 e2 d2
  show ?thesis by simp
qed

section \<open>Validation and sorting: properties\<close>

text \<open>
  The loop fails exactly when a store name was seen before, in the set it starts
  with or in an earlier scope, or when a default access is given and is neither \<open>allow\<close>
  nor \<open>deny\<close> in any mix of cases.
\<close>

lemma scopesLoop_step:
  assumes "StoreName scope \<notin> seen" and "\<not> P scope"
  shows "(\<exists>s \<in> set rest. StoreName s \<in> insert (StoreName scope) seen)
           \<or> \<not> distinct (map StoreName rest) \<or> (\<exists>s \<in> set rest. P s)
         \<longleftrightarrow>
         (\<exists>s \<in> set (scope # rest). StoreName s \<in> seen)
           \<or> \<not> distinct (map StoreName (scope # rest))
           \<or> (\<exists>s \<in> set (scope # rest). P s)"
  using assms by (auto simp: image_iff) metis

lemma scopesLoop_error:
  "fst (scopesLoop seen scopes) \<noteq> None \<longleftrightarrow>
     (\<exists>scope \<in> set scopes. StoreName scope \<in> seen)
     \<or> \<not> distinct (map StoreName scopes)
     \<or> (\<exists>scope \<in> set scopes. DefaultAccess scope \<noteq> ''''
            \<and> ToLower (DefaultAccess scope) \<noteq> ''allow''
            \<and> ToLower (DefaultAccess scope) \<noteq> ''deny'')"
proof (induction scopes arbitrary: seen)
  case Nil
  show ?case by simp
next
  case (Cons scope rest)
  let ?bad = "\<lambda>s. DefaultAccess s \<noteq> '''' \<and> ToLower (DefaultAccess s) \<noteq> ''allow''
                  \<and> ToLower (DefaultAccess s) \<noteq> ''deny''"
  have bad: "?bad s \<longleftrightarrow> DefaultAccess s \<noteq> '''' \<and> \<not> EqualFold (DefaultAccess s) AllowAccess
                \<and> \<not> EqualFold (DefaultAccess s) DenyAccess" for s
    by (simp add: AllowAccess_def DenyAccess_def EqualFold_allow EqualFold_deny)
  show ?case
  proof (cases "StoreName scope \<in> seen")
    case True
    then show ?thesis by simp
  next
    case fresh: False
    show ?thesis
    proof (cases "?bad scope")
      case True
      then have "fst (scopesLoop seen (scope # rest)) \<noteq> None"
        using fresh bad [of scope] by simp
      then show ?thesis using True by simp
    next
      case valid: False
      have step: "fst (scopesLoop seen (scope # rest))
                  = fst (scopesLoop (insert (StoreName scope) seen) rest)"
        using fresh valid bad [of scope] by (auto split: prod.splits)
      have "fst (scopesLoop (insert (StoreName scope) seen) rest) \<noteq> None \<longleftrightarrow>
              (\<exists>s \<in> set rest. StoreName s \<in> insert (StoreName scope) seen)
              \<or> \<not> distinct (map StoreName rest) \<or> (\<exists>s \<in> set rest. ?bad s)"
        by (rule Cons.IH)
      also have "\<dots> \<longleftrightarrow>
              (\<exists>s \<in> set (scope # rest). StoreName s \<in> seen)
              \<or> \<not> distinct (map StoreName (scope # rest))
              \<or> (\<exists>s \<in> set (scope # rest). ?bad s)"
        using fresh valid by (rule scopesLoop_step)
      finally show ?thesis by (simp only: step)
    qed
  qed
qed

lemma scopesLoop_success:
  "fst (scopesLoop seen scopes) = None \<Longrightarrow>
     snd (scopesLoop seen scopes) =
       map (\<lambda>scope. scope\<lparr>AllowedSecrets := sort (AllowedSecrets scope),
                           DeniedSecrets := sort (DeniedSecrets scope)\<rparr>) scopes"
proof (induction scopes arbitrary: seen)
  case Nil
  show ?case by simp
next
  case (Cons scope rest)
  show ?case
    using Cons.prems Cons.IH [of "insert (StoreName scope) seen"]
    by (auto split: prod.splits if_splits)
qed

lemma sortAndValidate_fst:
  "fst (sortAndValidateSecretsConfiguration conf) = fst (scopesLoop {} (Scopes (Secrets (Spec conf))))"
  by (simp add: sortAndValidateSecretsConfiguration_def Let_def split: prod.splits)

lemma sortAndValidate_snd:
  "Scopes (Secrets (Spec (snd (sortAndValidateSecretsConfiguration conf))))
   = snd (scopesLoop {} (Scopes (Secrets (Spec conf))))"
  by (simp add: sortAndValidateSecretsConfiguration_def Let_def split: prod.splits)

text \<open>
  Claim C9: validation returns an error exactly when two scopes have the same store name
  or some scope has a non-empty default access that is neither \<open>allow\<close> nor \<open>deny\<close> once
  lower-cased. When it returns no error, the scopes of the configuration are the given
  ones with both lists of each scope sorted.
\<close>

theorem sortAndValidate_error_iff_and_sorted:
  "(fst (sortAndValidateSecretsConfiguration conf) \<noteq> None \<longleftrightarrow>
      \<not> distinct (map StoreName (Scopes (Secrets (Spec conf))))
      \<or> (\<exists>scope \<in> set (Scopes (Secrets (Spec conf))).
            DefaultAccess scope \<noteq> ''''
            \<and> ToLower (DefaultAccess scope) \<noteq> ''allow''
            \<and> ToLower (DefaultAccess scope) \<noteq> ''deny''))
   \<and> (fst (sortAndValidateSecretsConfiguration conf) = None \<longrightarrow>
        Scopes (Secrets (Spec (snd (sortAndValidateSecretsConfiguration conf))))
          = map (\<lambda>scope. scope\<lparr>AllowedSecrets := sort (AllowedSecrets scope),
                               DeniedSecrets := sort (DeniedSecrets scope)\<rparr>)
              (Scopes (Secrets (Spec conf)))
        \<and> (\<forall>scope \<in> set (Scopes (Secrets (Spec (snd (sortAndValidateSecretsConfiguration conf))))).
              sorted (AllowedSecrets scope) \<and> sorted (DeniedSecrets scope)))"
proof -
  let ?scopes = "Scopes (Secrets (Spec conf))"
  let ?srt = "\<lambda>scope. scope\<lparr>AllowedSecrets := sort (AllowedSecrets scope),
                              DeniedSecrets := sort (DeniedSecrets scope)\<rparr>"
  have err: "fst (sortAndValidateSecretsConfiguration conf) \<noteq> None \<longleftrightarrow>
      \<not> distinct (map StoreName ?scopes)
      \<or> (\<exists>scope \<in> set ?scopes. DefaultAccess scope \<noteq> ''''
            \<and> ToLower (DefaultAccess scope) \<noteq> ''allow''
            \<and> ToLower (DefaultAccess scope) \<noteq> ''deny'')"
    using scopesLoop_error [of "{}" ?scopes] by (simp add: sortAndValidate_fst)
  have ok: "Scopes (Secrets (Spec (snd (sortAndValidateSecretsConfiguration conf))))
              = map ?srt ?scopes"
    if "fst (sortAndValidateSecretsConfiguration conf) = None"
    using that scopesLoop_success [of "{}" ?scopes]
    by (simp add: sortAndValidate_fst sortAndValidate_snd)
  have srt: "\<forall>scope \<in> set (map ?srt ?scopes).
               sorted (AllowedSecrets scope) \<and> sorted (DeniedSecrets scope)"
    by simp
  show ?thesis
  proof (intro conjI impI)
    show "fst (sortAndValidateSecretsConfiguration conf) \<noteq> None \<longleftrightarrow>
      \<not> distinct (map StoreName ?scopes)
      \<or> (\<exists>scope \<in> set ?scopes. DefaultAccess scope \<noteq> ''''
            \<and> ToLower (DefaultAccess scope) \<noteq> ''allow''
            \<and> ToLower (DefaultAccess scope) \<noteq> ''deny'')"
      by (rule err)
  next
    assume "fst (sortAndValidateSecretsConfiguration conf) = None"
    then show "Scopes (Secrets (Spec (snd (sortAndValidateSecretsConfiguration conf))))
                 = map ?srt ?scopes"
      by (rule ok)
  next
    assume "fst (sortAndValidateSecretsConfiguration conf) = None"
    then have "Scopes (Secrets (Spec (snd (sortAndValidateSecretsConfiguration conf))))
                 = map ?srt ?scopes"
      by (rule ok)
    then show "\<forall>scope \<in> set (Scopes (Secrets (Spec (snd
                   (sortAndValidateSecretsConfiguration conf))))).
                 sorted (AllowedSecrets scope) \<and> sorted (DeniedSecrets scope)"
      using srt by (simp only:)
  qed
qed

text \<open>
  Two valid scopes \<open>vault\<close> (default \<open>Allow\<close>, lists out of order) and \<open>local\<close> pass and
  come back sorted; the scope \<open>vault\<close> given twice is an error.
\<close>

theorem sortAndValidate_error_iff_and_sorted_witness:
  "fst (sortAndValidateSecretsConfiguration (confOf [unsortedScope, localScope])) = None
   \<and> Scopes (Secrets (Spec (snd (sortAndValidateSecretsConfiguration
                                     (confOf [unsortedScope, localScope])))))
       = [unsortedScope\<lparr>AllowedSecrets := [''a'', ''b''], DeniedSecrets := [''x'', ''y'', ''z'']\<rparr>,
          localScope]
   \<and> fst (sortAndValidateSecretsConfiguration (confOf [unsortedScope, unsortedScope])) \<noteq> None"
proof -
  let ?good = "confOf [unsortedScope, localScope]"
  let ?dup = "confOf [unsortedScope, unsortedScope]"
  have names: "distinct (map StoreName (Scopes (Secrets (Spec ?good))))"
    by (simp add: confOf_def unsortedScope_def localScope_def)
  have valid: "\<not> (\<exists>scope \<in> set (Scopes (Secrets (Spec ?good))).
            DefaultAccess scope \<noteq> ''''
            \<and> ToLower (DefaultAccess scope) \<noteq> ''allow''
            \<and> ToLower (DefaultAccess scope) \<noteq> ''deny'')"
    by (simp add: confOf_def unsortedScope_def localScope_def ToLower_Allow)
  note good = sortAndValidate_error_iff_and_sorted [of ?good]
  note dup = sortAndValidate_error_iff_and_sorted [of ?dup]
  have none: "fst (sortAndValidateSecretsConfiguration ?good) = None"
    using conjunct1 [OF good] names valid by blast
  have "Scopes (Secrets (Spec (snd (sortAndValidateSecretsConfiguration ?good))))
          = map (\<lambda>scope. scope\<lparr>AllowedSecrets := sort (AllowedSecrets scope),
                               DeniedSecrets := sort (DeniedSecrets scope)\<rparr>)
              (Scopes (Secrets (Spec ?good)))"
    using conjunct2 [OF good] none by blast
  then have sorted: "Scopes (Secrets (Spec (snd (sortAndValidateSecretsConfiguration ?good))))
       = [unsortedScope\<lparr>AllowedSecrets := [''a'', ''b''], DeniedSecrets := [''x'', ''y'', ''z'']\<rparr>,
          localScope]"
    by (simp add: confOf_def unsortedScope_def localScope_def)
  have "\<not> distinct (map StoreName (Scopes (Secrets (Spec ?dup))))"
    by (simp add: confOf_def)
  then have "fst (sortAndValidateSecretsConfiguration ?dup) \<noteq> None"
    using conjunct1 [OF dup] by blast
  with none sorted show ?thesis by blast
qed

section \<open>Caller identity: properties\<close>

lemma Split_spiffe:
  "Split ''spiffe://a/ns/b/pythonapp'' (CHR ''/'')
   = [''spiffe:'', '''', ''a'', ''ns'', ''b'', ''pythonapp'']"
  by (simp add: Split_def)

text \<open>
  Claim C10: for every context with a peer the function returns the identity
  \<open>a / b / pythonapp\<close>; so any two such contexts, whatever their peers hold, get the same
  identity.
\<close>

theorem TryGetAndParseSpiffeID_fixed_identity:
  assumes "FromContext ctx1 = Some p1" and "FromContext ctx2 = Some p2"
  shows "TryGetAndParseSpiffeID ctx1
           = Inr \<lparr>trustDomain = ''a'', namespace = ''b'', appID = ''pythonapp''\<rparr>
       \<and> TryGetAndParseSpiffeID ctx2 = TryGetAndParseSpiffeID ctx1"
  using assms by (simp add: TryGetAndParseSpiffeID_def Split_spiffe index_def)

text \<open>
  A peer without TLS state and a peer whose verified certificate carries
  \<open>spiffe://other/ns/prod/billing\<close> are both given the identity \<open>a / b / pythonapp\<close>.
\<close>

theorem TryGetAndParseSpiffeID_fixed_identity_witness:
  "FromContext plainContext = Some \<lparr>Addr = ''10.0.0.1:50001'', AuthInfo = None\<rparr>
   \<and> FromContext tlsContext \<noteq> None
   \<and> FromContext tlsContext \<noteq> FromContext plainContext
   \<and> TryGetAndParseSpiffeID plainContext
        = Inr \<lparr>trustDomain = ''a'', namespace = ''b'', appID = ''pythonapp''\<rparr>
   \<and> TryGetAndParseSpiffeID tlsContext = TryGetAndParseSpiffeID plainContext"
proof -
  have p1: "FromContext plainContext = Some \<lparr>Addr = ''10.0.0.1:50001'', AuthInfo = None\<rparr>"
    by (simp add: FromContext_def plainContext_def)
  have p2: "FromContext tlsContext = Some \<lparr>Addr = ''10.0.0.2:50001'',
        AuthInfo = Some \<lparr>HandshakeComplete = True,
          VerifiedChains = [[\<lparr>ExtraExtensions = [''spiffe://other/ns/prod/billing'']\<rparr>]]\<rparr>\<rparr>"
    by (simp add: FromContext_def tlsContext_def)
  have ne: "FromContext tlsContext \<noteq> FromContext plainContext"
    by (simp add: p1 p2)
  from TryGetAndParseSpiffeID_fixed_identity [OF p1 p2] p1 p2 ne
  show ?thesis by simp
qed

end
